theory Spec2Isabelle
  imports Complex_Main
begin

section \<open>Counting nodes of a van Emde Boas tree: the script \<open>math.py\<close>\<close>

text \<open>
  The script is Python 2 (it uses the \<open>print\<close> statement). It defines \<open>prod\<close>, a loop
  multiplying the factors \<open>pow(2, pow(2, h - k))\<close> for \<open>k = 1, ..., i\<close>, the one-line
  \<open>prod2\<close>, and the driver \<open>test\<close>, which prints both for \<open>i = 1, ..., h\<close>; the
  program is the single call \<open>test(2)\<close>.
\<close>

subsection \<open>Values\<close>

text \<open>
  Python integers are unbounded and are modelled by \<^typ>\<open>int\<close>. In Python 2, \<open>pow\<close> of
  two integers with a negative exponent converts both to float and delivers a float, and
  arithmetic mixing an integer with a float delivers a float; so a number of the script is
  either an integer or a float.

  A float is an IEEE double, represented by the real number that is its value. Every
  operation on floats delivers the double nearest to the exact result, a tie going to the
  double with the even significand: \<open>to_double\<close> rounds a real number to 53 significant
  bits, with the spacing \<open>2^(e-52)\<close> for a number between \<open>2^e\<close> and \<open>2^(e+1)\<close>, and
  the spacing \<open>2^(-1074)\<close> of the subnormal doubles below \<open>2^(-1022)\<close>, so that a result
  below half of the least double becomes zero. The C library's \<open>pow\<close> is taken to
  round correctly. What lies beyond the largest double is not part of the model: there
  Python delivers \<open>inf\<close> or raises \<open>OverflowError\<close>, as it does when an integer of
  about \<open>2^1024\<close> or more is converted to float. Neither are the sign of a zero and the
  memory that a large integer needs.
\<close>

datatype pyval = PyInt int | PyFloat real

definition round_even :: "real \<Rightarrow> int" where
  "round_even x =
     (let f = \<lfloor>x\<rfloor>; d = x - of_int f
      in if d < 1/2 then f else if 1/2 < d then f + 1 else if even f then f else f + 1)"

definition to_double :: "real \<Rightarrow> real" where
  "to_double x =
     (if x = 0 then 0
      else let q = 2 powr of_int (max \<lfloor>log 2 \<bar>x\<bar>\<rfloor> (- 1022) - 52)
           in of_int (round_even (x / q)) * q)"

text \<open>
  \<open>pow(2, x)\<close>, the only way the script calls \<open>pow\<close>. With a negative integer
  exponent both arguments are converted to float first; 2 is a double.
\<close>

fun pow2_py :: "pyval \<Rightarrow> pyval" where
  "pow2_py (PyInt n) =
     (if 0 \<le> n then PyInt (2 ^ nat n)
      else PyFloat (to_double (2 powr to_double (real_of_int n))))"
| "pow2_py (PyFloat x) = PyFloat (to_double (2 powr x))"

text \<open>The product \<open>a * b\<close> of two numbers; an integer is converted to float to meet a float.\<close>

fun mul_py :: "pyval \<Rightarrow> pyval \<Rightarrow> pyval" where
  "mul_py (PyInt a) (PyInt b) = PyInt (a * b)"
| "mul_py (PyInt a) (PyFloat y) = PyFloat (to_double (to_double (real_of_int a) * y))"
| "mul_py (PyFloat x) (PyInt b) = PyFloat (to_double (x * to_double (real_of_int b)))"
| "mul_py (PyFloat x) (PyFloat y) = PyFloat (to_double (x * y))"

subsection \<open>The function \<open>prod\<close>\<close>

text \<open>
  \<^verbatim>\<open>
  def prod(i, h):
      result = 1
      k = 1
      while k <= i:
          result *= pow(2, pow(2, h - k))
          k += 1
      return result
  \<close>
  The loop is a recursive function on the pair of the two local variables
  \<open>(result, k)\<close>; it returns their final values. As \<open>k\<close> starts at 1 and each iteration
  adds 1 to it, the loop has run \<open>k - 1\<close> times when it ends with the value \<open>k\<close>.
\<close>

function prod_loop :: "int \<Rightarrow> int \<Rightarrow> pyval \<times> int \<Rightarrow> pyval \<times> int" where
  "prod_loop i h (result, k) =
     (if k \<le> i
      then prod_loop i h (mul_py result (pow2_py (pow2_py (PyInt (h - k)))), k + 1)
      else (result, k))"
  by pat_completeness auto
termination
  by (relation "measure (\<lambda>(i, h, result, k). nat (i + 1 - k))") auto

definition prod_py :: "int \<Rightarrow> int \<Rightarrow> pyval" where
  "prod_py i h = fst (prod_loop i h (PyInt 1, 1))"

subsection \<open>The function \<open>prod2\<close>\<close>

text \<open>
  \<^verbatim>\<open>
  def prod2(i):
      return pow(2, pow(2, 2 - i))
  \<close>
\<close>

definition prod2 :: "int \<Rightarrow> pyval" where
  "prod2 i = pow2_py (pow2_py (PyInt (2 - i)))"

subsection \<open>Printing\<close>

text \<open>
  The conversion \<open>%d\<close> writes an integer in decimal, with a minus sign when it is
  negative; a float is first truncated towards zero.
\<close>

fun dec_nat :: "nat \<Rightarrow> string" where
  "dec_nat n =
     (if n < 10 then [''0123456789'' ! n]
      else dec_nat (n div 10) @ [''0123456789'' ! (n mod 10)])"

definition dec_int :: "int \<Rightarrow> string" where
  "dec_int n = (if n < 0 then ''-'' @ dec_nat (nat (- n)) else dec_nat (nat n))"

fun fmt_d :: "pyval \<Rightarrow> string" where
  "fmt_d (PyInt n) = dec_int n"
| "fmt_d (PyFloat x) = dec_int (if 0 \<le> x then \<lfloor>x\<rfloor> else \<lceil>x\<rceil>)"

text \<open>
  Standard output is the list of the lines written so far; a \<open>print\<close> statement adds one
  line at its end.
\<close>

definition print_py :: "string \<Rightarrow> string list \<Rightarrow> string list" where
  "print_py s out = out @ [s]"

subsection \<open>The driver \<open>test\<close> and the program\<close>

text \<open>
  \<^verbatim>\<open>
  def test(h):
      for i in range(1, h + 1):
          print "prod i = %d: %d" % (i, prod(i, h));
          print "prod2 i = %d: %d" % (i, prod2(i));

  test(2)
  \<close>
  \<open>range(1, h + 1)\<close> is the list \<open>[1..h]\<close>, empty when \<open>h < 1\<close>; the body of the loop
  takes the output to the output with two more lines. The function has no \<open>return\<close>
  statement, so a call evaluates to Python's \<open>None\<close>: the first component of the
  result, with \<open>None\<close> for \<open>None\<close>.
\<close>

definition test_body :: "int \<Rightarrow> int \<Rightarrow> string list \<Rightarrow> string list" where
  "test_body h i out =
     print_py (''prod2 i = '' @ fmt_d (PyInt i) @ '': '' @ fmt_d (prod2 i))
       (print_py (''prod i = '' @ fmt_d (PyInt i) @ '': '' @ fmt_d (prod_py i h)) out)"

definition test :: "int \<Rightarrow> string list \<Rightarrow> pyval option \<times> string list" where
  "test h out = (None, fold (test_body h) [1..h] out)"

definition main :: "pyval option \<times> string list" where
  "main = test 2 []"

subsection \<open>The formulas of the specification\<close>

text \<open>
  The specification describes \<open>prod(i, h)\<close> as the product of \<open>2^(2^(h-k))\<close> for
  \<open>k\<close> from 1 to \<open>i\<close>; summing the exponents gives the closed form
  \<open>2^(2^h - 2^(h-i))\<close>. Both are written here as the words have them, to be compared
  with the loop.
\<close>

definition prod_spec :: "int \<Rightarrow> int \<Rightarrow> int" where
  "prod_spec i h = (\<Prod>k\<in>{1..i}. 2 ^ (2 ^ nat (h - k)))"

definition prod_closed :: "int \<Rightarrow> int \<Rightarrow> int" where
  "prod_closed i h = 2 ^ (2 ^ nat h - 2 ^ nat (h - i))"

section \<open>Properties\<close>

subsection \<open>The loop on integers\<close>

declare prod_loop.simps [simp del]

lemma factor_int:
  "0 \<le> n \<Longrightarrow> pow2_py (pow2_py (PyInt n)) = PyInt (2 ^ (2 ^ nat n))"
  by (simp add: nat_power_eq)

lemma prod_loop_int:
  "i \<le> h \<Longrightarrow>
   prod_loop i h (PyInt r, k) =
     (PyInt (r * (\<Prod>j\<in>{k..i}. 2 ^ (2 ^ nat (h - j)))), if k \<le> i then i + 1 else k)"
proof (induction "nat (i + 1 - k)" arbitrary: r k)
  case 0
  then have "\<not> k \<le> i" by simp
  then show ?case
    by (simp add: prod_loop.simps [of i h "PyInt r" k])
next
  case (Suc n)
  then have le: "k \<le> i" and n: "n = nat (i + 1 - (k + 1))"
    by linarith+
  have split: "{k..i} = insert k {k + 1..i}"
    using le by auto
  have step: "prod_loop i h (PyInt r, k) = prod_loop i h (PyInt (r * 2 ^ (2 ^ nat (h - k))), k + 1)"
    using le \<open>i \<le> h\<close> by (simp add: prod_loop.simps [of i h "PyInt r" k] factor_int del: pow2_py.simps)
  also have "\<dots> =
      (PyInt (r * 2 ^ (2 ^ nat (h - k)) * (\<Prod>j\<in>{k + 1..i}. 2 ^ (2 ^ nat (h - j)))),
       if k + 1 \<le> i then i + 1 else k + 1)"
    using Suc.hyps(1) [OF n \<open>i \<le> h\<close>] .
  finally show ?case
    using le by (auto simp: split mult.assoc)
qed

lemma sum_pow2: "0 \<le> i \<Longrightarrow> i \<le> h \<Longrightarrow> (\<Sum>j\<in>{1..i}. (2::nat) ^ nat (h - j)) = 2 ^ nat h - 2 ^ nat (h - i)"
proof (induction i rule: int_ge_induct)
  case base
  then show ?case by simp
next
  case (step i)
  have split: "{1..i + 1} = insert (i + 1) {1..i}"
    using step by auto
  have le: "(2::nat) ^ nat (h - i) \<le> 2 ^ nat h"
    using step by (intro power_increasing) auto
  have dbl: "(2::nat) ^ nat (h - i) = 2 * 2 ^ nat (h - (i + 1))"
  proof -
    have "nat (h - i) = Suc (nat (h - (i + 1)))" using step by linarith
    then show ?thesis by simp
  qed
  show ?case
    using step le dbl by (simp add: split)
qed

lemma prod_pow2: "0 \<le> i \<Longrightarrow> i \<le> h \<Longrightarrow> (\<Prod>j\<in>{1..i}. (2::int) ^ (2 ^ nat (h - j))) = 2 ^ (2 ^ nat h - 2 ^ nat (h - i))"
  by (simp add: power_sum [symmetric] sum_pow2)

subsection \<open>The results of \<open>prod\<close> and \<open>prod2\<close>\<close>

lemma prod_py_int: "i \<le> h \<Longrightarrow> prod_py i h = PyInt (\<Prod>j\<in>{1..i}. 2 ^ (2 ^ nat (h - j)))"
  by (simp add: prod_py_def prod_loop_int)

lemma prod_py_pow: "0 \<le> i \<Longrightarrow> i \<le> h \<Longrightarrow> prod_py i h = PyInt (2 ^ (2 ^ nat h - 2 ^ nat (h - i)))"
  by (simp add: prod_py_int prod_pow2)

lemma exp_mono: "0 \<le> i \<Longrightarrow> i < i' \<Longrightarrow> i' \<le> h \<Longrightarrow>
   (2::nat) ^ nat h - 2 ^ nat (h - i) < 2 ^ nat h - 2 ^ nat (h - i')"
proof -
  assume a: "0 \<le> i" "i < i'" "i' \<le> h"
  have "(2::nat) ^ nat (h - i') < 2 ^ nat (h - i)"
    using a by (intro power_strict_increasing) auto
  moreover have "(2::nat) ^ nat (h - i) \<le> 2 ^ nat h"
    using a by (intro power_increasing) auto
  ultimately show ?thesis by linarith
qed

subsection \<open>Rounding to a double\<close>

lemma round_even_near:
  "of_int (round_even y) - 1/2 \<le> y" "y \<le> of_int (round_even y) + 1/2"
  unfolding round_even_def Let_def by (auto; linarith)+

lemma round_even_int: "round_even (of_int z) = z"
  by (simp add: round_even_def)

lemma round_even_eqI: "of_int z - 1/2 < y \<Longrightarrow> y < of_int z + 1/2 \<Longrightarrow> round_even y = z"
  using round_even_near [of y] by linarith

lemma round_even_le: "y \<le> of_int z \<Longrightarrow> round_even y \<le> z"
  using round_even_near [of y] by linarith

lemma round_even_ge: "of_int z \<le> y \<Longrightarrow> z \<le> round_even y"
  using round_even_near [of y] by linarith

lemma round_even_half: "round_even (1/2) = 0"
  by (simp add: round_even_def)

lemma round_even_small: "0 < y \<Longrightarrow> y \<le> 1/2 \<Longrightarrow> round_even y = 0"
proof -
  assume a: "0 < y" "y \<le> 1/2"
  show ?thesis
  proof (cases "y = 1/2")
    case True
    show ?thesis unfolding True by (rule round_even_half)
  next
    case False
    with a have "y < 1/2" by simp
    with a show ?thesis by (intro round_even_eqI) simp_all
  qed
qed

lemma ln2_lower: "1/2 < ln (2::real)"
proof -
  have "exp (1/2 :: real) \<le> 1 + 1/2 + (1/2)\<^sup>2"
    by (rule exp_bound) simp_all
  also have "\<dots> < 2" by (simp add: power2_eq_square)
  finally have "exp (1/2 :: real) < exp (ln 2)" by simp
  then show ?thesis by (simp only: exp_less_cancel_iff)
qed

lemma ln2_upper: "ln (2::real) \<le> 3/4"
proof -
  have "(2::real) \<le> (35/32) ^ 8" by (simp add: power_divide)
  then have "(2::real) \<le> (1 + 3/32) ^ 8" by simp
  also have "\<dots> \<le> exp (3/32) ^ 8"
    by (intro power_mono exp_ge_add_one_self) simp
  also have "\<dots> = exp (of_nat 8 * (3/32))"
    by (simp only: exp_of_nat_mult)
  finally have "(2::real) \<le> exp (3/4)" by simp
  then have "ln (2::real) \<le> ln (exp (3/4))"
    by (subst ln_le_cancel_iff) simp_all
  then show ?thesis by simp
qed

lemma pow2_lower: "0 < t \<Longrightarrow> 1 + t / 2 < (2::real) powr t"
proof -
  assume t: "0 < t"
  have "1 + t / 2 < 1 + t * ln 2"
    using t ln2_lower by simp
  also have "\<dots> \<le> exp (t * ln 2)"
    by (rule exp_ge_add_one_self)
  finally show ?thesis by (simp add: powr_def)
qed

lemma pow2_upper: "0 < t \<Longrightarrow> t \<le> 1/8 \<Longrightarrow> (2::real) powr t < 1 + t"
proof -
  assume t: "0 < t" "t \<le> 1/8"
  define y where "y = t * ln 2"
  have y0: "0 \<le> y" using t by (simp add: y_def)
  have y1: "y \<le> 3/4 * t" using t ln2_upper by (simp add: y_def)
  have "y\<^sup>2 \<le> (3/4 * t)\<^sup>2" using y0 y1 by (intro power_mono) auto
  also have "\<dots> = 9/16 * (t * t)" by (simp add: power2_eq_square)
  also have "\<dots> \<le> 9/16 * (t * (1/8))" using t by (intro mult_left_mono) auto
  finally have y2: "y\<^sup>2 \<le> 9/128 * t" by simp
  have "exp y \<le> 1 + y + y\<^sup>2"
    using y0 y1 t by (intro exp_bound) auto
  also have "\<dots> < 1 + t" using y1 y2 t by linarith
  finally show ?thesis by (simp add: powr_def y_def)
qed

lemma pow2_half: "t \<le> 1/2 \<Longrightarrow> (2::real) powr t < 3/2"
proof -
  assume t: "t \<le> 1/2"
  define a where "a = (2::real) powr (1/2)"
  have "a * a = 2 powr (1/2 + 1/2)" by (simp only: a_def powr_add)
  then have aa: "a * a = 2" by simp
  have a0: "0 \<le> a" by (simp add: a_def)
  have "a < 3/2"
  proof (rule ccontr)
    assume "\<not> a < 3/2"
    then have "3/2 \<le> a" by simp
    then have "3/2 * (3/2) \<le> a * a" by (intro mult_mono) auto
    with aa show False by simp
  qed
  moreover have "(2::real) powr t \<le> a" using t by (simp add: a_def)
  ultimately show ?thesis by simp
qed

lemma two_powr_int: "0 \<le> n \<Longrightarrow> (2::real) powr of_int n = of_int (2 ^ nat n)"
  by (simp add: powr_real_of_int)

lemma to_double_unit:
  assumes "1 \<le> x" "x < 2"
  shows "to_double x = of_int (round_even (x * 2 ^ 52)) / 2 ^ 52"
proof -
  have "\<lfloor>log 2 x\<rfloor> = 0"
    using assms by (subst floor_log_eq_powr_iff) simp_all
  then have e: "max \<lfloor>log 2 \<bar>x\<bar>\<rfloor> (- 1022) - 52 = - 52"
    using assms by simp
  have "(2::real) powr (- 52) = inverse (2 powr 52)"
    by (rule powr_minus)
  then have q: "(2::real) powr of_int (- 52) = inverse (2 ^ 52)"
    by simp
  have "to_double x = of_int (round_even (x / 2 powr of_int (- 52))) * 2 powr of_int (- 52)"
    using assms unfolding to_double_def Let_def e by simp
  then show ?thesis
    unfolding q by (simp add: field_simps)
qed

lemma to_double_exact:
  assumes x: "x \<noteq> 0" and m: "m = max \<lfloor>log 2 \<bar>x\<bar>\<rfloor> (- 1022) - 52"
    and z: "x / 2 powr of_int m = of_int z"
  shows "to_double x = x"
proof -
  have "to_double x = of_int (round_even (x / 2 powr of_int m)) * 2 powr of_int m"
    using x unfolding to_double_def Let_def m by simp
  also have "\<dots> = x / 2 powr of_int m * 2 powr of_int m"
    by (simp only: z round_even_int)
  also have "\<dots> = x" by simp
  finally show ?thesis .
qed

lemma to_double_pow2:
  assumes "- 1074 \<le> n"
  shows "to_double (2 powr of_int n) = 2 powr of_int n"
proof -
  define m where "m = max n (- 1022) - 52"
  have nm: "0 \<le> n - m" using assms by (simp add: m_def)
  have "(2::real) powr of_int n / 2 powr of_int m = 2 powr of_int (n - m)"
    by (simp add: powr_diff)
  also have "\<dots> = of_int (2 ^ nat (n - m))"
    using nm by (rule two_powr_int)
  finally have z: "(2::real) powr of_int n / 2 powr of_int m = of_int (2 ^ nat (n - m))" .
  have m: "m = max \<lfloor>log 2 \<bar>2 powr of_int n\<bar>\<rfloor> (- 1022) - 52"
    by (simp add: m_def)
  show ?thesis
    by (rule to_double_exact [OF _ m z]) simp
qed

lemma to_double_tiny:
  assumes "0 < x" "x \<le> 2 powr (- 1075)"
  shows "to_double x = 0"
proof -
  have "log 2 x \<le> log 2 (2 powr (- 1075))"
    using assms by (subst log_le_cancel_iff) simp_all
  then have "log 2 x \<le> - 1075" by simp
  then have "\<lfloor>log 2 x\<rfloor> \<le> - 1075" by linarith
  then have e: "max \<lfloor>log 2 \<bar>x\<bar>\<rfloor> (- 1022) - 52 = - 1074"
    using assms by simp
  have "x / 2 powr of_int (- 1074) \<le> 2 powr (- 1075) / 2 powr of_int (- 1074)"
    using assms by (intro divide_right_mono) simp_all
  also have "\<dots> = 2 powr (- 1)"
    by (simp add: powr_diff [symmetric])
  also have "\<dots> = 1 / 2"
    by (simp add: powr_minus_divide)
  finally have le: "x / 2 powr of_int (- 1074) \<le> 1 / 2" .
  have pos: "0 < x / 2 powr of_int (- 1074)"
    using assms by simp
  have "round_even (x / 2 powr of_int (- 1074)) = 0"
    using pos le by (rule round_even_small)
  then show ?thesis
    using assms unfolding to_double_def Let_def e by simp
qed

lemma to_double_neg_int:
  assumes "- (2 ^ 53) < n" "n < 0"
  shows "to_double (of_int n) = of_int n"
proof -
  define x :: real where "x = of_int n"
  define e where "e = \<lfloor>log 2 \<bar>x\<bar>\<rfloor>"
  have "x \<le> of_int (- 1)" "of_int (- (2 ^ 53)) < x"
    using assms unfolding x_def by (simp_all only: of_int_le_iff of_int_less_iff)
  then have ax: "1 \<le> \<bar>x\<bar>" "\<bar>x\<bar> < 2 powr 53"
    by simp_all
  have "0 \<le> log 2 \<bar>x\<bar>"
    using ax by (subst le_log_iff) simp_all
  then have e0: "0 \<le> e" by (simp add: e_def)
  have "log 2 \<bar>x\<bar> < 53"
    using ax by (subst log_less_iff) simp_all
  then have e1: "e \<le> 52" unfolding e_def by linarith
  have m: "e - 52 = max \<lfloor>log 2 \<bar>x\<bar>\<rfloor> (- 1022) - 52"
    using e0 by (simp add: e_def)
  have "x / 2 powr of_int (e - 52) = x * 2 powr of_int (52 - e)"
    by (simp add: powr_diff field_simps)
  also have "\<dots> = of_int n * of_int (2 ^ nat (52 - e))"
    using e1 by (simp add: x_def two_powr_int del: of_int_diff)
  also have "\<dots> = of_int (n * 2 ^ nat (52 - e))" by simp
  finally have z: "x / 2 powr of_int (e - 52) = of_int (n * 2 ^ nat (52 - e))" .
  have "x \<noteq> 0" using ax by auto
  then have "to_double x = x" using m z by (rule to_double_exact)
  then show ?thesis by (simp add: x_def)
qed

lemma to_double_big_neg:
  assumes "n \<le> - (2 ^ 53)"
  shows "to_double (of_int n) \<le> - (2 ^ 53)"
proof -
  define x :: real where "x = of_int n"
  define e where "e = \<lfloor>log 2 \<bar>x\<bar>\<rfloor>"
  define q :: real where "q = 2 powr of_int (e - 52)"
  have "x \<le> of_int (- (2 ^ 53))"
    using assms unfolding x_def by (simp only: of_int_le_iff)
  then have xn: "x \<le> - (2 ^ 53)" by simp
  then have ax: "2 powr 53 \<le> \<bar>x\<bar>" "x < 0" "\<bar>x\<bar> = - x" by simp_all
  have "53 \<le> log 2 \<bar>x\<bar>"
    using ax by (subst le_log_iff) simp_all
  then have e53: "53 \<le> e" unfolding e_def by linarith
  have "\<lfloor>log 2 \<bar>x\<bar>\<rfloor> = e" by (simp add: e_def)
  then have pe: "2 powr of_int e \<le> \<bar>x\<bar>"
    using ax by (subst (asm) floor_log_eq_powr_iff) simp_all
  have q0: "0 < q" by (simp add: q_def)
  have "(2::real) powr 1 \<le> q"
    unfolding q_def using e53 by (intro powr_mono) simp_all
  then have q2: "2 \<le> q" by simp
  have "2 powr of_int e / q = 2 powr of_int 52"
    unfolding q_def by (simp add: powr_diff [symmetric] del: powr_numeral)
  then have "2 powr of_int e / q = 2 ^ 52" by simp
  moreover have "2 powr of_int e / q \<le> \<bar>x\<bar> / q"
    using pe q0 by (intro divide_right_mono) simp_all
  ultimately have "x / q \<le> - (2 ^ 52)"
    using ax by simp
  then have "x / q \<le> of_int (- (2 ^ 52))" by simp
  then have r: "round_even (x / q) \<le> - (2 ^ 52)"
    by (rule round_even_le)
  have "real_of_int (round_even (x / q)) \<le> of_int (- (2 ^ 52))"
    using r by (simp only: of_int_le_iff)
  then have r': "of_int (round_even (x / q)) \<le> (- (2 ^ 52) :: real)"
    by simp
  have "of_int (round_even (x / q)) * q \<le> - (2 ^ 52) * q"
    using r' q0 by (intro mult_right_mono) simp_all
  also have "\<dots> \<le> - (2 ^ 52) * 2"
    using q2 by simp
  finally have "of_int (round_even (x / q)) * q \<le> - (2 ^ 53)" by simp
  moreover have "to_double x = of_int (round_even (x / q)) * q"
    using ax e53 unfolding to_double_def Let_def q_def e_def by (simp add: max_def)
  ultimately show ?thesis by (simp add: x_def)
qed

lemma to_double_near_one:
  assumes "1 < x" "x < 1 + 1 / 2 ^ 53"
  shows "to_double x = 1"
proof -
  have "round_even (x * 2 ^ 52) = 2 ^ 52"
    using assms by (intro round_even_eqI) (simp_all add: field_simps)
  moreover have "to_double x = of_int (round_even (x * 2 ^ 52)) / 2 ^ 52"
    using assms by (intro to_double_unit) simp_all
  ultimately show ?thesis by simp
qed

lemma to_double_above_one:
  assumes "1 + 1 / 2 ^ 53 < x" "x < 3 / 2"
  shows "1 < to_double x" and "to_double x < 2"
proof -
  define r where "r = round_even (x * 2 ^ 52)"
  have td: "to_double x = of_int r / 2 ^ 52"
    unfolding r_def using assms by (intro to_double_unit) simp_all
  have "of_int (2 ^ 52) < x * 2 ^ 52 - 1 / 2"
    using assms by (simp add: field_simps)
  also have "\<dots> \<le> of_int r"
    using round_even_near(2) [of "x * 2 ^ 52"] by (simp add: r_def)
  finally have "(2 ^ 52 :: int) < r"
    by (simp only: of_int_less_iff)
  then have "2 ^ 52 + 1 \<le> r" by simp
  then have "real_of_int (2 ^ 52 + 1) \<le> of_int r"
    by (simp only: of_int_le_iff)
  then show "1 < to_double x"
    by (simp add: td field_simps)
  have "x * 2 ^ 52 \<le> of_int (3 * 2 ^ 51)"
    using assms by (simp add: field_simps)
  then have "r \<le> 3 * 2 ^ 51"
    unfolding r_def by (rule round_even_le)
  then have "real_of_int r \<le> of_int (3 * 2 ^ 51)"
    by (simp only: of_int_le_iff)
  then show "to_double x < 2"
    by (simp add: td field_simps)
qed

lemma to_double_one: "to_double 1 = 1"
  using to_double_pow2 [of 0] by simp

subsection \<open>The floats of \<open>prod2\<close>\<close>

text \<open>
  A negative integer power of 2 is a double down to \<open>2^(-1074)\<close>, and rounds to zero
  below.
\<close>

lemma pow2_neg_int:
  assumes "n < 0"
  shows "pow2_py (PyInt n) = PyFloat (if - 1074 \<le> n then 2 powr of_int n else 0)"
proof (cases "- 1074 \<le> n")
  case True
  then have "to_double (of_int n) = of_int n"
    using assms by (intro to_double_neg_int) simp_all
  then show ?thesis
    using assms True by (simp add: to_double_pow2)
next
  case False
  have z: "to_double (of_int n) \<le> - 1075"
  proof (cases "- (2 ^ 53) < n")
    case True
    then have "to_double (of_int n) = of_int n"
      using assms by (intro to_double_neg_int) simp_all
    then show ?thesis using False by simp
  next
    case False
    then have "to_double (of_int n) \<le> - (2 ^ 53)"
      by (intro to_double_big_neg) simp
    then show ?thesis by simp
  qed
  have "to_double (2 powr to_double (of_int n)) = 0"
    using z by (intro to_double_tiny) simp_all
  then show ?thesis
    using assms False by simp
qed

text \<open>
  For \<open>i > 2\<close> the inner power of \<open>prod2\<close> has a negative exponent, so the result is
  a float: the double nearest to \<open>2^t\<close>, where \<open>t\<close> is \<open>2^(2-i)\<close> or zero. Up to
  \<open>i = 54\<close> it lies strictly between 1 and 2; from \<open>i = 55\<close> on, \<open>2^t\<close> is nearer to 1
  than to the next double \<open>1 + 2^(-52)\<close>, and the result is 1.
\<close>

lemma prod2_float:
  "2 < i \<Longrightarrow>
   prod2 i = PyFloat (to_double (2 powr (if - 1074 \<le> 2 - i then 2 powr of_int (2 - i) else 0)))"
  by (simp add: prod2_def pow2_neg_int del: pow2_py.simps(1))

lemma prod2_float_low:
  assumes "2 < i" "i \<le> 54"
  shows "\<exists>y. prod2 i = PyFloat y \<and> 1 < y \<and> y < 2"
proof -
  define t :: real where "t = 2 powr of_int (2 - i)"
  have "(2::real) powr of_int (- 52) \<le> t"
    unfolding t_def using assms by (intro powr_mono) simp_all
  then have lo: "1 / 2 ^ 52 \<le> t"
    by (simp add: powr_minus_divide)
  have "t \<le> 2 powr of_int (- 1)"
    unfolding t_def using assms by (intro powr_mono) simp_all
  then have hi: "t \<le> 1 / 2"
    by (simp add: powr_minus_divide)
  have "0 < t" by (simp add: t_def)
  then have "1 + t / 2 < 2 powr t" by (rule pow2_lower)
  then have a: "1 + 1 / 2 ^ 53 < 2 powr t"
    using lo by simp
  have b: "2 powr t < 3 / 2"
    using hi by (rule pow2_half)
  have "prod2 i = PyFloat (to_double (2 powr t))"
    using assms by (simp add: prod2_float t_def)
  then show ?thesis
    using to_double_above_one [OF a b] by simp
qed

lemma prod2_float_high:
  assumes "55 \<le> i"
  shows "prod2 i = PyFloat 1"
proof (cases "- 1074 \<le> 2 - i")
  case True
  define t :: real where "t = 2 powr of_int (2 - i)"
  have "t \<le> 2 powr of_int (- 53)"
    unfolding t_def using assms by (intro powr_mono) simp_all
  then have hi: "t \<le> 1 / 2 ^ 53"
    by (simp add: powr_minus_divide)
  have t0: "0 < t" by (simp add: t_def)
  then have "(2::real) powr 0 < 2 powr t"
    by (intro powr_less_mono) simp_all
  then have a: "1 < 2 powr t" by simp
  have "2 powr t < 1 + t"
    using t0 hi by (intro pow2_upper) simp_all
  then have b: "2 powr t < 1 + 1 / 2 ^ 53"
    using hi by simp
  have "prod2 i = PyFloat (to_double (2 powr t))"
    using assms True by (simp add: prod2_float t_def)
  then show ?thesis
    using to_double_near_one [OF a b] by simp
next
  case False
  then show ?thesis
    using assms by (simp add: prod2_float to_double_one)
qed

text \<open>The real number \<open>2^(2^n)\<close> with \<open>n < 0\<close> lies strictly between 1 and 2.\<close>

lemma tower_bounds:
  assumes "n < 0"
  shows "1 < (2::real) powr (2 powr real_of_int n)" and "(2::real) powr (2 powr real_of_int n) < 2"
proof -
  have pos: "0 < (2::real) powr real_of_int n"
    by simp
  have "(2::real) powr real_of_int n < 2 powr 0"
    using assms by (intro powr_less_mono) auto
  then have lt1: "(2::real) powr real_of_int n < 1"
    by simp
  have "(2::real) powr 0 < 2 powr (2 powr real_of_int n)"
    using pos by (intro powr_less_mono) auto
  then show "1 < (2::real) powr (2 powr real_of_int n)"
    by simp
  have "(2::real) powr (2 powr real_of_int n) < 2 powr 1"
    using lt1 by (intro powr_less_mono) auto
  then show "(2::real) powr (2 powr real_of_int n) < 2"
    by simp
qed

lemma between_not_int: "1 < (x::real) \<Longrightarrow> x < 2 \<Longrightarrow> x \<notin> \<int>"
proof
  assume a: "1 < x" "x < 2" "x \<in> \<int>"
  then obtain z :: int where z: "x = of_int z"
    by (auto elim: Ints_cases)
  with a have "1 < z" "z < 2" by simp_all
  then show False by simp
qed

lemma fmt_prod2_float: "2 < i \<Longrightarrow> fmt_d (prod2 i) = ''1''"
proof -
  assume i: "2 < i"
  have "\<exists>y. prod2 i = PyFloat y \<and> 1 \<le> y \<and> y < 2"
  proof (cases "i \<le> 54")
    case True
    then show ?thesis using prod2_float_low [OF i] by auto
  next
    case False
    then show ?thesis by (simp add: prod2_float_high)
  qed
  then obtain y where y: "prod2 i = PyFloat y" "1 \<le> y" "y < 2"
    by blast
  then have "\<lfloor>y\<rfloor> = 1" by linarith
  then show ?thesis
    using y by (simp add: dec_int_def)
qed

subsection \<open>The output of \<open>test\<close>\<close>

lemma test_fold:
  "fold (test_body h) xs out =
     out @ concat (map (\<lambda>i. [''prod i = '' @ fmt_d (PyInt i) @ '': '' @ fmt_d (prod_py i h),
                              ''prod2 i = '' @ fmt_d (PyInt i) @ '': '' @ fmt_d (prod2 i)]) xs)"
  by (induction xs arbitrary: out) (simp_all add: test_body_def print_py_def)

subsection \<open>The claims of the specification\<close>

text \<open>
  Claim C1. For integers \<open>1 \<le> i \<le> h\<close>, \<open>prod(i, h)\<close> returns the product, for \<open>k\<close> from 1
  to \<open>i\<close>, of \<open>2^(2^(h-k))\<close>: an exact integer (never a float), and not negative.
\<close>

theorem prod_is_product:
  "1 \<le> i \<Longrightarrow> i \<le> h \<Longrightarrow> prod_py i h = PyInt (prod_spec i h) \<and> 0 \<le> prod_spec i h"
  by (simp add: prod_py_int prod_spec_def prod_nonneg)

theorem prod_is_product_witness:
  "(1::int) \<le> 2 \<and> (2::int) \<le> 3 \<and> prod_py 2 3 = PyInt 64 \<and> prod_spec 2 3 = 64"
proof -
  have "{1..2::int} = {1, 2}" by auto
  then have "prod_spec 2 3 = 64" by (simp add: prod_spec_def)
  then show ?thesis using prod_is_product [of 2 3] by simp
qed

text \<open>
  Claim C2, as amended. The program, the call \<open>test(2)\<close> on an empty output, prints the
  four lines \<open>prod i = 1: 4\<close>, \<open>prod2 i = 1: 4\<close>, \<open>prod i = 2: 8\<close>, \<open>prod2 i = 2: 2\<close>
  in that order, and evaluates to \<open>None\<close>. The third line ends in 8, the product
  \<open>4 * 2\<close>.
\<close>

theorem main_output:
  "main = (None, [''prod i = 1: 4'', ''prod2 i = 1: 4'', ''prod i = 2: 8'', ''prod2 i = 2: 2''])"
  by (simp add: main_def test_def test_body_def print_py_def prod_py_def prod_loop.simps
      prod2_def upto_rec1 dec_int_def)

text \<open>
  Claim C2 as the specification has it, with \<open>prod i = 2: 6\<close> as the third line, does not
  hold: these are not the lines the program prints.
\<close>

theorem main_output_counterexample:
  "snd main \<noteq> [''prod i = 1: 4'', ''prod2 i = 1: 4'', ''prod i = 2: 6'', ''prod2 i = 2: 2'']"
  by (simp add: main_def test_def test_body_def print_py_def prod_py_def prod_loop.simps
      prod2_def upto_rec1 dec_int_def)

text \<open>
  Claim C3, as amended. At \<open>h = 2\<close>, \<open>prod\<close> and \<open>prod2\<close> agree for \<open>i = 1\<close>, where both
  are 4; for \<open>i = 2\<close> they are 8 and 2.
\<close>

theorem agree_at_height_2:
  "prod_py 1 2 = prod2 1 \<and> prod_py 1 2 = PyInt 4 \<and> prod_py 2 2 = PyInt 8 \<and> prod2 2 = PyInt 2"
  by (simp add: prod_py_def prod_loop.simps prod2_def)

text \<open>
  Claim C3 as the specification has it, agreement for every \<open>i\<close> in \<open>{1, 2}\<close>, fails at
  \<open>i = 2\<close>.
\<close>

theorem agree_at_height_2_counterexample:
  "(2::int) \<in> {1, 2} \<and> prod_py 2 2 \<noteq> prod2 2"
  by (simp add: prod_py_def prod_loop.simps prod2_def)

text \<open>
  Claim C4, as amended. For every integer \<open>h \<ge> 1\<close>, \<open>prod(h, h)\<close> returns
  \<open>2^(2^h - 1)\<close>. The factor of the last iteration, \<open>k = h\<close>, is \<open>2^(2^0) = 2\<close>, and the
  result is 2 exactly when \<open>h = 1\<close>.
\<close>

theorem prod_diagonal:
  "1 \<le> h \<Longrightarrow>
   prod_py h h = PyInt (2 ^ (2 ^ nat h - 1)) \<and>
   pow2_py (pow2_py (PyInt (h - h))) = PyInt 2 \<and>
   (prod_py h h = PyInt 2 \<longleftrightarrow> h = 1)"
proof -
  assume h: "1 \<le> h"
  have val: "prod_py h h = PyInt (2 ^ (2 ^ nat h - 1))"
    using h by (simp add: prod_py_pow)
  have "((2::int) ^ (2 ^ nat h - 1) = 2) \<longleftrightarrow> (h = 1)"
  proof
    assume "(2::int) ^ (2 ^ nat h - 1) = 2"
    then have "(2::int) ^ (2 ^ nat h - 1) = 2 ^ 1" by simp
    then have "(2::nat) ^ nat h - 1 = 1"
      by (subst (asm) power_inject_exp) simp_all
    then have "(2::nat) ^ nat h = 2 ^ 1" by simp
    then have "nat h = 1"
      by (subst (asm) power_inject_exp) simp_all
    then show "h = 1" by simp
  next
    assume "h = 1"
    then show "(2::int) ^ (2 ^ nat h - 1) = 2" by simp
  qed
  then show ?thesis
    using val by simp
qed

theorem prod_diagonal_witness:
  "(1::int) \<le> 3 \<and> prod_py 3 3 = PyInt 128 \<and> prod_py 3 3 \<noteq> PyInt 2 \<and> prod_py 1 1 = PyInt 2"
  using prod_diagonal [of 3] prod_diagonal [of 1] by simp

text \<open>
  Claim C4 as the specification has it, \<open>prod(h, h) = 2\<close> for every \<open>h \<ge> 1\<close>, fails at
  \<open>h = 2\<close>, where the result is 8.
\<close>

theorem prod_diagonal_counterexample:
  "(1::int) \<le> 2 \<and> prod_py 2 2 = PyInt 8 \<and> prod_py 2 2 \<noteq> PyInt 2"
  by (simp add: prod_py_def prod_loop.simps)

text \<open>
  Claim C5. \<open>prod2(1)\<close> is \<open>2^(2^1) = 4\<close> and \<open>prod2(2)\<close> is \<open>2^(2^0) = 2\<close>.
\<close>

theorem prod2_values:
  "prod2 1 = PyInt (2 ^ (2 ^ 1)) \<and> prod2 1 = PyInt 4 \<and>
   prod2 2 = PyInt (2 ^ (2 ^ 0)) \<and> prod2 2 = PyInt 2"
  by (simp add: prod2_def)

text \<open>
  Claim C6. For every integer \<open>h\<close> and every integer \<open>i < 1\<close>, the loop of \<open>prod(i, h)\<close>
  ends in its initial state \<open>result = 1\<close>, \<open>k = 1\<close>, that is after no iteration, and
  \<open>prod(i, h)\<close> returns the integer 1.
\<close>

theorem prod_empty:
  "i < 1 \<Longrightarrow> prod_loop i h (PyInt 1, 1) = (PyInt 1, 1) \<and> prod_py i h = PyInt 1"
  by (simp add: prod_py_def prod_loop.simps [of i h "PyInt 1" 1])

theorem prod_empty_witness:
  "(0::int) < 1 \<and> prod_loop 0 5 (PyInt 1, 1) = (PyInt 1, 1) \<and> prod_py 0 5 = PyInt 1 \<and>
   (-3::int) < 1 \<and> prod_py (-3) (-7) = PyInt 1"
  using prod_empty [of 0 5] prod_empty [of "-3" "-7"] by simp

text \<open>
  Claim C7. For every integer \<open>h \<ge> 1\<close>, \<open>test(h)\<close> adds to the output, for
  \<open>i = 1, ..., h\<close> in this order, the line \<open>prod i = <i>: <prod(i, h)>\<close> and then the line
  \<open>prod2 i = <i>: <prod2(i)>\<close>, each number written by \<open>%d\<close>, and nothing else; the
  call evaluates to \<open>None\<close>.
\<close>

theorem test_output:
  "1 \<le> h \<Longrightarrow>
   test h out =
     (None,
      out @ concat (map (\<lambda>i. [''prod i = '' @ fmt_d (PyInt i) @ '': '' @ fmt_d (prod_py i h),
                               ''prod2 i = '' @ fmt_d (PyInt i) @ '': '' @ fmt_d (prod2 i)])
                        [1..h]))"
  by (simp add: test_def test_fold)

theorem test_output_witness:
  "(1::int) \<le> 3 \<and>
   test 3 [] =
     (None, [''prod i = 1: 16'', ''prod2 i = 1: 4'', ''prod i = 2: 64'', ''prod2 i = 2: 2'',
             ''prod i = 3: 128'', ''prod2 i = 3: 1''])"
proof -
  have p: "prod_py 1 3 = PyInt 16" "prod_py 2 3 = PyInt 64" "prod_py 3 3 = PyInt 128"
    by (simp_all add: prod_py_pow)
  have q: "prod2 1 = PyInt 4" "prod2 2 = PyInt 2"
    by (simp_all add: prod2_def)
  have f: "fmt_d (prod2 3) = ''1''"
    by (simp add: fmt_prod2_float)
  show ?thesis
    using test_output [of 3 "[]"] by (simp add: upto_rec1 p q f dec_int_def)
qed

text \<open>
  Claim C8, as amended. For every integer \<open>i \<le> 2\<close>, \<open>prod2(i)\<close> is the exact integer
  \<open>2^(2^(2-i))\<close>. For \<open>i > 2\<close>, as far as \<open>2^1023\<close> (an exponent \<open>2 - i\<close> of that size
  is converted to float without \<open>OverflowError\<close>), the exponent \<open>2 - i\<close> is negative,
  the real number \<open>2^(2^(2-i))\<close> is not an integer, and the result of \<open>prod2(i)\<close> is a
  float, never an integer of Python: up to \<open>i = 54\<close> a double strictly between 1 and
  2, which is not an integer, and from \<open>i = 55\<close> on the double 1.0, to which the real
  number rounds.
\<close>

theorem prod2_result:
  "(i \<le> 2 \<longrightarrow> prod2 i = PyInt (2 ^ (2 ^ nat (2 - i)))) \<and>
   (2 < i \<and> i \<le> 2 ^ 1023 \<longrightarrow>
      2 - i < 0 \<and> 2 powr (2 powr real_of_int (2 - i)) \<notin> \<int> \<and>
      (\<exists>y. prod2 i = PyFloat y \<and>
           (i \<le> 54 \<longrightarrow> 1 < y \<and> y < 2 \<and> y \<notin> \<int>) \<and>
           (55 \<le> i \<longrightarrow> y = 1)))"
proof (intro conjI impI)
  assume "i \<le> 2"
  then show "prod2 i = PyInt (2 ^ (2 ^ nat (2 - i)))"
    by (simp add: prod2_def factor_int del: pow2_py.simps)
next
  assume "2 < i \<and> i \<le> 2 ^ 1023"
  then have i: "2 < i" by simp
  then show n: "2 - i < 0" by simp
  show "2 powr (2 powr real_of_int (2 - i)) \<notin> \<int>"
    using tower_bounds [OF n] by (rule between_not_int)
  show "\<exists>y. prod2 i = PyFloat y \<and>
           (i \<le> 54 \<longrightarrow> 1 < y \<and> y < 2 \<and> y \<notin> \<int>) \<and>
           (55 \<le> i \<longrightarrow> y = 1)"
  proof (cases "i \<le> 54")
    case True
    then obtain y where y: "prod2 i = PyFloat y" "1 < y" "y < 2"
      using prod2_float_low [OF i] by blast
    have "y \<notin> \<int>"
      using y(2,3) by (rule between_not_int)
    then show ?thesis
      using True y by simp
  next
    case False
    then show ?thesis
      by (simp add: prod2_float_high)
  qed
qed

theorem prod2_result_witness:
  "(0::int) \<le> 2 \<and> prod2 0 = PyInt 16 \<and>
   (2::int) < 3 \<and> (3::int) \<le> 2 ^ 1023 \<and> (3::int) \<le> 54 \<and>
   (\<exists>y. prod2 3 = PyFloat y \<and> 1 < y \<and> y < 2 \<and> y \<notin> \<int>) \<and>
   (2::int) < 60 \<and> (60::int) \<le> 2 ^ 1023 \<and> (55::int) \<le> 60 \<and> prod2 60 = PyFloat 1"
  using prod2_result [of 0] prod2_result [of 3] prod2_result [of 60] by simp

text \<open>
  Claim C8 as the specification has it, that the result for \<open>i > 2\<close> is not an integer
  because the real number is not, fails at \<open>i = 60\<close>: the result is the float 1.0, whose
  value is the integer 1.
\<close>

theorem prod2_result_counterexample:
  "(2::int) < 60 \<and> prod2 60 = PyFloat 1 \<and> (1::real) \<in> \<int>"
  by (simp add: prod2_float_high)

text \<open>
  Claim C9. For integers \<open>0 \<le> i \<le> h\<close>, the loop of \<open>prod(i, h)\<close> computes exactly the
  closed form \<open>2^(2^h - 2^(h-i))\<close>.
\<close>

theorem prod_closed_form:
  "0 \<le> i \<Longrightarrow> i \<le> h \<Longrightarrow> prod_py i h = PyInt (prod_closed i h)"
  by (simp add: prod_py_pow prod_closed_def)

theorem prod_closed_form_witness:
  "(0::int) \<le> 2 \<and> (2::int) \<le> 3 \<and> prod_py 2 3 = PyInt 64 \<and> prod_closed 2 3 = 64"
  using prod_closed_form [of 2 3] by (simp add: prod_closed_def)

text \<open>
  Claim C10. For every integer \<open>h \<ge> 1\<close> and integers \<open>0 \<le> i < i' \<le> h\<close>, the integer
  \<open>prod(i, h)\<close> is less than the integer \<open>prod(i', h)\<close>. An iteration of the loop with
  \<open>k \<le> h\<close> multiplies the integer accumulator by \<open>2^(2^(h-k))\<close>, which is at least 2:
  the loop that has this one iteration left takes the state \<open>(r, k)\<close> to
  \<open>(r * 2^(2^(h-k)), k + 1)\<close>, and a longer loop goes on from that state.
\<close>

theorem prod_strict_mono:
  "1 \<le> h \<Longrightarrow> 0 \<le> i \<Longrightarrow> i < i' \<Longrightarrow> i' \<le> h \<Longrightarrow>
   (\<exists>a b. prod_py i h = PyInt a \<and> prod_py i' h = PyInt b \<and> a < b) \<and>
   (\<forall>k r. k \<le> h \<longrightarrow>
      prod_loop k h (PyInt r, k) = (PyInt (r * 2 ^ (2 ^ nat (h - k))), k + 1) \<and>
      (2::int) \<le> 2 ^ (2 ^ nat (h - k))) \<and>
   (\<forall>j k r. k \<le> j \<and> k \<le> h \<longrightarrow>
      prod_loop j h (PyInt r, k) = prod_loop j h (PyInt (r * 2 ^ (2 ^ nat (h - k))), k + 1))"
proof (intro conjI allI impI)
  assume a: "0 \<le> i" "i < i'" "i' \<le> h"
  have "(2::int) ^ (2 ^ nat h - 2 ^ nat (h - i)) < 2 ^ (2 ^ nat h - 2 ^ nat (h - i'))"
    using exp_mono [OF a] by (intro power_strict_increasing) auto
  then show "\<exists>a b. prod_py i h = PyInt a \<and> prod_py i' h = PyInt b \<and> a < b"
    using a by (simp add: prod_py_pow)
next
  fix k r
  assume k: "k \<le> h"
  then show "prod_loop k h (PyInt r, k) = (PyInt (r * 2 ^ (2 ^ nat (h - k))), k + 1)"
    by (simp add: prod_loop_int)
  have "(2::int) ^ 1 \<le> 2 ^ (2 ^ nat (h - k))"
    by (intro power_increasing) auto
  then show "(2::int) \<le> 2 ^ (2 ^ nat (h - k))"
    by simp
next
  fix j k r
  assume k: "k \<le> j \<and> k \<le> h"
  then show "prod_loop j h (PyInt r, k) = prod_loop j h (PyInt (r * 2 ^ (2 ^ nat (h - k))), k + 1)"
    by (simp add: prod_loop.simps [of j h "PyInt r" k] factor_int del: pow2_py.simps)
qed

theorem prod_strict_mono_witness:
  "(1::int) \<le> 3 \<and> (0::int) \<le> 1 \<and> (1::int) < 2 \<and> (2::int) \<le> 3 \<and>
   (\<exists>a b. prod_py 1 3 = PyInt a \<and> prod_py 2 3 = PyInt b \<and> a < b) \<and>
   prod_loop 2 3 (PyInt 16, 2) = (PyInt 64, 3) \<and>
   prod_loop 3 3 (PyInt 16, 2) = prod_loop 3 3 (PyInt 64, 3)"
proof -
  have "(\<exists>a b. prod_py 1 3 = PyInt a \<and> prod_py 2 3 = PyInt b \<and> a < b) \<and>
     (\<forall>k r. k \<le> 3 \<longrightarrow>
        prod_loop k 3 (PyInt r, k) = (PyInt (r * 2 ^ (2 ^ nat (3 - k))), k + 1) \<and>
        (2::int) \<le> 2 ^ (2 ^ nat (3 - k))) \<and>
     (\<forall>j k r. k \<le> j \<and> k \<le> 3 \<longrightarrow>
        prod_loop j 3 (PyInt r, k) = prod_loop j 3 (PyInt (r * 2 ^ (2 ^ nat (3 - k))), k + 1))"
    by (rule prod_strict_mono [of 3 1 2]) simp_all
  then have m: "\<exists>a b. prod_py 1 3 = PyInt a \<and> prod_py 2 3 = PyInt b \<and> a < b"
    and one: "prod_loop 2 3 (PyInt 16, 2) = (PyInt (16 * 2 ^ (2 ^ nat (3 - 2))), 2 + 1)"
    and step: "prod_loop 3 3 (PyInt 16, 2) = prod_loop 3 3 (PyInt (16 * 2 ^ (2 ^ nat (3 - 2))), 2 + 1)"
    by simp_all
  show ?thesis
    using m one step by simp
qed

end
